theory Spec2Isabelle
  imports Complex_Main "HOL-Library.AList" "HOL-Library.Sublist"
begin

section \<open>Data model of the generator\<close>

text \<open>
  The Python dictionaries of \<^verbatim>\<open>generator.py\<close> keep their insertion order, and the
  order is observable (the sampling walks keys and weights in that order), so a dictionary
  is an association list whose lookup is \<^const>\<open>map_of\<close> and whose update is
  \<^const>\<open>AList.update\<close>: an existing key keeps its place, a new key goes to the end.
  Counts are Python integers. Probabilities are Python floats in the source; here they are
  rationals, so every statement about a probability is one of exact arithmetic.
\<close>

datatype error = ValueError string | IndexError | ZeroDivisionError

type_synonym freq_table = "(string \<times> int) list"
type_synonym dist = "(string \<times> rat) list"

text \<open>
  The key of a chain is what \<^verbatim>\<open>_build_markov_chains\<close> stores: the first part of a
  two-part key (a \<^verbatim>\<open>str\<close>), or the tuple of the first two parts of a three-part key.
\<close>

datatype ctx = Uni string | Duo string string

type_synonym chains = "(ctx \<times> dist) list"

text \<open>
  The frequency table of the specification: keys are unique and every count is at
  least 1.
\<close>

definition freq_table_ok :: "freq_table \<Rightarrow> bool" where
  "freq_table_ok tbl \<longleftrightarrow> distinct (map fst tbl) \<and> list_all (\<lambda>kc. 1 \<le> snd kc) tbl"

section \<open>Frequencies to probabilities\<close>

text \<open>
  \<^verbatim>\<open>_frequencies_to_probabilities\<close>: the empty table gives the empty distribution;
  otherwise the total is summed once and every count is divided by it. Python's
  \<^verbatim>\<open>count / total\<close> raises \<^verbatim>\<open>ZeroDivisionError\<close> when the total is 0.
\<close>

definition frequencies_to_probabilities :: "freq_table \<Rightarrow> error + dist" where
  "frequencies_to_probabilities frequencies =
     (if frequencies = [] then Inr []
      else
        let total = sum_list (map snd frequencies) in
        if total = 0 then Inl ZeroDivisionError
        else Inr (map (\<lambda>(key, count). (key, of_int count / of_int total)) frequencies))"

section \<open>The random source\<close>

text \<open>
  The module \<^verbatim>\<open>random\<close> is a global pseudo-random generator. Its state is modelled by
  the infinite sequence of raw draws it has still to deliver; every primitive consumes one
  raw draw and returns the remaining sequence. \<^verbatim>\<open>random.random()\<close> returns a multiple
  of \<open>2\<^sup>-\<^sup>5\<^sup>3\<close> in \<open>[0, 1)\<close>; \<^verbatim>\<open>_randbelow(n)\<close> returns an integer in \<open>[0, n)\<close>.
\<close>

type_synonym rng = "nat \<Rightarrow> nat"

definition rng_random :: "rng \<Rightarrow> rat \<times> rng" where
  "rng_random g = (of_nat (g 0 mod 2 ^ 53) / 2 ^ 53, \<lambda>i. g (Suc i))"

definition randbelow :: "nat \<Rightarrow> rng \<Rightarrow> nat \<times> rng" where
  "randbelow n g = (g 0 mod n, \<lambda>i. g (Suc i))"

text \<open>
  \<^verbatim>\<open>random.choice(seq)\<close> raises \<^verbatim>\<open>IndexError\<close> on an empty sequence and otherwise
  returns \<^verbatim>\<open>seq[_randbelow(len(seq))]\<close>.
\<close>

definition random_choice :: "'a list \<Rightarrow> rng \<Rightarrow> (error + 'a) \<times> rng" where
  "random_choice seq g =
     (if seq = [] then (Inl IndexError, g)
      else case randbelow (length seq) g of (i, g') \<Rightarrow> (Inr (seq ! i), g'))"

text \<open>
  \<^verbatim>\<open>random.randint(a, b)\<close> is \<^verbatim>\<open>randrange(a, b + 1)\<close>: a \<^verbatim>\<open>ValueError\<close> on an
  empty range, otherwise \<^verbatim>\<open>a + _randbelow(b + 1 - a)\<close>.
\<close>

definition randint :: "int \<Rightarrow> int \<Rightarrow> rng \<Rightarrow> (error + int) \<times> rng" where
  "randint a b g =
     (if b < a then (Inl (ValueError ''empty range for randrange()''), g)
      else case randbelow (nat (b + 1 - a)) g of (i, g') \<Rightarrow> (Inr (a + int i), g'))"

text \<open>\<^verbatim>\<open>itertools.accumulate\<close>: the running sums of the weights.\<close>

fun accumulate_from :: "rat \<Rightarrow> rat list \<Rightarrow> rat list" where
  "accumulate_from a [] = []"
| "accumulate_from a (w # ws) = (a + w) # accumulate_from (a + w) ws"

definition accumulate :: "rat list \<Rightarrow> rat list" where
  "accumulate ws = accumulate_from 0 ws"

text \<open>
  \<^verbatim>\<open>bisect.bisect(a, x, lo, hi)\<close> (that is \<^verbatim>\<open>bisect_right\<close>), the binary search as
  the library runs it, whether or not \<open>a\<close> is sorted.
\<close>

function bisect :: "rat list \<Rightarrow> rat \<Rightarrow> nat \<Rightarrow> nat \<Rightarrow> nat" where
  "bisect a x lo hi =
     (if lo < hi then
        (if x < a ! ((lo + hi) div 2) then bisect a x lo ((lo + hi) div 2)
         else bisect a x ((lo + hi) div 2 + 1) hi)
      else lo)"
  by pat_completeness auto
termination
  by (relation "measure (\<lambda>(a, x, lo, hi). hi - lo)") auto

declare bisect.simps [simp del]

text \<open>
  \<^verbatim>\<open>random.choices(population, weights=weights, k=1)[0]\<close> (CPython 3.9 and later): the
  cumulative weights are computed, a \<^verbatim>\<open>ValueError\<close> is raised when their number
  differs from the population's or when the total is not positive, and otherwise one
  \<^verbatim>\<open>random()\<close> draw is scaled by the total and located by bisection between 0 and
  \<open>n - 1\<close>. All the errors are raised before the random source is touched. (The
  check that the total is finite has no counterpart in rational arithmetic.)
\<close>

definition random_choices :: "'a list \<Rightarrow> rat list \<Rightarrow> rng \<Rightarrow> (error + 'a) \<times> rng" where
  "random_choices population weights g =
     (let n = length population; cum_weights = accumulate weights in
      if length cum_weights \<noteq> n then
        (Inl (ValueError ''The number of weights does not match the population''), g)
      else if cum_weights = [] then (Inl IndexError, g)
      else
        let total = last cum_weights in
        if total \<le> 0 then (Inl (ValueError ''Total of weights must be greater than zero''), g)
        else case rng_random g of
               (r, g') \<Rightarrow> (Inr (population ! bisect cum_weights (r * total) 0 (n - 1)), g'))"

section \<open>Weighted sampling\<close>

text \<open>
  \<^verbatim>\<open>_weighted_choice\<close>: \<^verbatim>\<open>None\<close> on the empty dictionary; otherwise one weighted
  draw over the keys, and, when that draw raises anything, \<^verbatim>\<open>random.choice(items)\<close>
  (or \<^verbatim>\<open>None\<close> for an empty key list). An exception raised inside the handler would
  leave the function, so the result type keeps the error branch.
\<close>

definition weighted_choice :: "dist \<Rightarrow> rng \<Rightarrow> (error + string option) \<times> rng" where
  "weighted_choice choices g =
     (if choices = [] then (Inr None, g)
      else
        let items = map fst choices; weights = map snd choices in
        case random_choices items weights g of
          (Inr x, g') \<Rightarrow> (Inr (Some x), g')
        | (Inl e, g') \<Rightarrow>
            (if items \<noteq> [] then
               (case random_choice items g' of
                  (Inr x, g'') \<Rightarrow> (Inr (Some x), g'')
                | (Inl e', g'') \<Rightarrow> (Inl e', g''))
             else (Inr None, g')))"

section \<open>Strings and lists of Python\<close>

text \<open>
  Characters are bytes here, so \<^verbatim>\<open>str.upper\<close> and \<^verbatim>\<open>str.lower\<close> are their ASCII
  restrictions: the 26 letters change case and every other character is kept. The model
  agrees with Python on ASCII text; what Python does to the case of other characters is
  not represented, and nothing below is derived from it.
\<close>

definition upper_char :: "char \<Rightarrow> char" where
  "upper_char c =
     (case map_of (zip ''abcdefghijklmnopqrstuvwxyz'' ''ABCDEFGHIJKLMNOPQRSTUVWXYZ'') c of
        Some u \<Rightarrow> u | None \<Rightarrow> c)"

definition lower_char :: "char \<Rightarrow> char" where
  "lower_char c =
     (case map_of (zip ''ABCDEFGHIJKLMNOPQRSTUVWXYZ'' ''abcdefghijklmnopqrstuvwxyz'') c of
        Some l \<Rightarrow> l | None \<Rightarrow> c)"

definition lower :: "string \<Rightarrow> string" where
  "lower str = map lower_char str"

text \<open>\<^verbatim>\<open>sep.join(xs)\<close>.\<close>

fun join :: "string \<Rightarrow> string list \<Rightarrow> string" where
  "join sep [] = []"
| "join sep [x] = x"
| "join sep (x # y # ys) = x @ sep @ join sep (y # ys)"

text \<open>
  \<^verbatim>\<open>str.split(sep)\<close>: the text is scanned from the left, every occurrence of the
  separator closes the current piece and the scan resumes behind it. The empty separator
  is a \<^verbatim>\<open>ValueError\<close>.
\<close>

function split_from :: "string \<Rightarrow> string \<Rightarrow> string \<Rightarrow> string list" where
  "split_from sep cur [] = [cur]"
| "split_from sep cur (c # cs) =
     (if sep \<noteq> [] \<and> prefix sep (c # cs)
      then cur # split_from sep [] (drop (length sep) (c # cs))
      else split_from sep (cur @ [c]) cs)"
  by pat_completeness auto
termination
  by (relation "measure (\<lambda>(sep, cur, str). length str)") auto

definition str_split :: "string \<Rightarrow> string \<Rightarrow> error + string list" where
  "str_split sep str =
     (if sep = [] then Inl (ValueError ''empty separator'') else Inr (split_from sep [] str))"

text \<open>\<^verbatim>\<open>a in b\<close> on strings is \<^const>\<open>sublist\<close>: \<open>a\<close> occurs in \<open>b\<close> as a contiguous run.\<close>

text \<open>\<^verbatim>\<open>xs[-k]\<close> for a positive \<open>k\<close>, and the slice \<^verbatim>\<open>xs[:n]\<close>.\<close>

definition neg_index :: "'a list \<Rightarrow> nat \<Rightarrow> error + 'a" where
  "neg_index xs k =
     (if 0 < k \<and> k \<le> length xs then Inr (xs ! (length xs - k)) else Inl IndexError)"

definition slice_to :: "int \<Rightarrow> 'a list \<Rightarrow> 'a list" where
  "slice_to n xs = (if 0 \<le> n then take (nat n) xs else take (nat (int (length xs) + n)) xs)"

text \<open>
  The truth value of an optional string, as in \<^verbatim>\<open>if char:\<close>: neither \<^verbatim>\<open>None\<close> nor
  the empty string.
\<close>

definition truthy :: "string option \<Rightarrow> bool" where
  "truthy x = (case x of None \<Rightarrow> False | Some str \<Rightarrow> str \<noteq> [])"

text \<open>
  \<^verbatim>\<open>sentence[0].upper() + sentence[1:] + '.'\<close>; indexing the empty string is an
  \<^verbatim>\<open>IndexError\<close>.
\<close>

definition format_sentence :: "string \<Rightarrow> error + string" where
  "format_sentence sentence =
     (case sentence of [] \<Rightarrow> Inl IndexError | c # cs \<Rightarrow> Inr (upper_char c # cs @ ''.''))"

text \<open>
  \<^verbatim>\<open>repr(s)\<close> of a string, as the message of \<^verbatim>\<open>int\<close> prints its argument: the
  quote is the single quote, or the double quote when the string holds a single quote and
  no double quote; the quote and the backslash are escaped by a backslash, tab, newline
  and carriage return are written \<open>\t\<close>, \<open>\n\<close>, \<open>\r\<close>, and the other control
  characters \<open>\xhh\<close>. Bytes above 127 are kept as they are.
\<close>

definition hex_digit :: "nat \<Rightarrow> char" where
  "hex_digit n = ''0123456789abcdef'' ! (n mod 16)"

definition repr_char :: "char \<Rightarrow> char \<Rightarrow> string" where
  "repr_char quote c =
     (if c = quote \<or> c = CHR 0x5C then [CHR 0x5C, c]
      else if c = CHR 0x09 then [CHR 0x5C, CHR ''t'']
      else if c = CHR 0x0A then [CHR 0x5C, CHR ''n'']
      else if c = CHR 0x0D then [CHR 0x5C, CHR ''r'']
      else if (of_char c :: nat) < 32 \<or> c = CHR 0x7F
        then [CHR 0x5C, CHR ''x'', hex_digit (of_char c div 16), hex_digit (of_char c)]
      else [c])"

definition py_repr :: "string \<Rightarrow> string" where
  "py_repr str =
     (let quote = (if CHR 0x27 \<in> set str \<and> CHR 0x22 \<notin> set str then CHR 0x22 else CHR 0x27)
      in [quote] @ concat (map (repr_char quote) str) @ [quote])"

text \<open>
  \<^verbatim>\<open>int(s)\<close> on a string: surrounding ASCII whitespace is dropped, one sign is allowed,
  and the digits may be separated by single underscores; the message of the
  \<^verbatim>\<open>ValueError\<close> shows the first 200 characters of the \<^verbatim>\<open>repr\<close> of the argument.
  (Python also accepts non-ASCII digits and whitespace, which bytes do not represent.)
\<close>

definition is_space :: "char \<Rightarrow> bool" where
  "is_space c \<longleftrightarrow> c \<in> set [CHR '' '', CHR 0x09, CHR 0x0A, CHR 0x0B, CHR 0x0C, CHR 0x0D]"

definition strip :: "string \<Rightarrow> string" where
  "strip str = rev (dropWhile is_space (rev (dropWhile is_space str)))"

definition digit_val :: "char \<Rightarrow> nat option" where
  "digit_val c = map_of (zip ''0123456789'' [0, 1, 2, 3, 4, 5, 6, 7, 8, 9]) c"

fun parse_digits :: "nat \<Rightarrow> bool \<Rightarrow> string \<Rightarrow> nat option" where
  "parse_digits acc after_digit [] = (if after_digit then Some acc else None)"
| "parse_digits acc after_digit (c # cs) =
     (if c = CHR ''_'' then (if after_digit \<and> cs \<noteq> [] then parse_digits acc False cs else None)
      else case digit_val c of
             None \<Rightarrow> None
           | Some d \<Rightarrow> parse_digits (10 * acc + d) True cs)"

definition py_int :: "string \<Rightarrow> error + int" where
  "py_int str =
     (let body = strip str;
          (sign, digits) =
            (case body of
               c # cs \<Rightarrow> if c = CHR ''-'' then (- 1, cs) else if c = CHR ''+'' then (1, cs) else (1, body)
             | [] \<Rightarrow> (1, body))
      in case parse_digits 0 False digits of
           None \<Rightarrow> Inl (ValueError (''invalid literal for int() with base 10: '' @ take 200 (py_repr str)))
         | Some n \<Rightarrow> Inr (sign * int n))"

section \<open>The generation session\<close>

text \<open>
  The fields of \<^verbatim>\<open>TextGenerator\<close>: the six loaded frequency tables, the models built
  from them, and the sentence statistics. Of \<^verbatim>\<open>sentence_stats\<close> the generator reads the
  entry \<^verbatim>\<open>'length_distribution'\<close> only; the field is \<open>None\<close> when the statistics are
  empty or lack that entry.
\<close>

record session =
  char_unigrams :: freq_table
  char_bigrams :: freq_table
  char_trigrams :: freq_table
  word_unigrams :: freq_table
  word_bigrams :: freq_table
  word_trigrams :: freq_table
  length_distribution :: "freq_table option"
  char_unigram_probs :: dist
  char_bigram_chains :: chains
  char_trigram_chains :: chains
  word_unigram_probs :: dist
  word_bigram_chains :: chains
  word_trigram_chains :: chains

text \<open>\<^verbatim>\<open>chains.get(key, {})\<close>; the key \<^verbatim>\<open>None\<close> is in no chain.\<close>

definition chain_get :: "chains \<Rightarrow> ctx option \<Rightarrow> dist" where
  "chain_get ch key =
     (case key of
        None \<Rightarrow> []
      | Some k \<Rightarrow> (case map_of ch k of None \<Rightarrow> [] | Some d \<Rightarrow> d))"

text \<open>
  The statement \<^verbatim>\<open>if next is None: next = self._weighted_choice(d)\<close>, applied to the
  outcome so far.
\<close>

definition or_else :: "(error + string option) \<times> rng \<Rightarrow> dist \<Rightarrow> (error + string option) \<times> rng" where
  "or_else r d = (case r of (Inr None, g) \<Rightarrow> weighted_choice d g | _ \<Rightarrow> r)"

section \<open>Sentence lengths\<close>

fun expand_lengths :: "freq_table \<Rightarrow> int list \<Rightarrow> error + int list" where
  "expand_lengths [] lengths = Inr lengths"
| "expand_lengths ((length_str, count) # rest) lengths =
     (case py_int length_str of
        Inl e \<Rightarrow> Inl e
      | Inr n \<Rightarrow> expand_lengths rest (lengths @ replicate (nat count) n))"

definition sample_sentence_length :: "session \<Rightarrow> rng \<Rightarrow> (error + int) \<times> rng" where
  "sample_sentence_length s g =
     (case length_distribution s of
        None \<Rightarrow> randint 5 20 g
      | Some length_dist \<Rightarrow>
          (case expand_lengths length_dist [] of
             Inl e \<Rightarrow> (Inl e, g)
           | Inr lengths \<Rightarrow> if lengths \<noteq> [] then random_choice lengths g else randint 5 20 g))"

section \<open>Character-level generation\<close>

definition chars :: string where
  "chars = ''abcdefghijklmnopqrstuvwxyz ''"

fun char_0_loop :: "nat \<Rightarrow> string \<Rightarrow> rng \<Rightarrow> (error + string) \<times> rng" where
  "char_0_loop 0 result g = (Inr result, g)"
| "char_0_loop (Suc n) result g =
     (case random_choice chars g of
        (Inl e, g') \<Rightarrow> (Inl e, g')
      | (Inr c, g') \<Rightarrow> char_0_loop n (result @ [c]) g')"

definition generate_char_0 :: "int \<Rightarrow> rng \<Rightarrow> (error + string) \<times> rng" where
  "generate_char_0 len g = char_0_loop (nat len) [] g"

text \<open>
  The loop \<^verbatim>\<open>for _ in range(n): x = self._weighted_choice(probs); if x: result.append(x)\<close>
  of \<^verbatim>\<open>generate_char_1\<close> and \<^verbatim>\<open>generate_word_1\<close>.
\<close>

fun unigram_loop :: "dist \<Rightarrow> nat \<Rightarrow> string list \<Rightarrow> rng \<Rightarrow> (error + string list) \<times> rng" where
  "unigram_loop probs 0 result g = (Inr result, g)"
| "unigram_loop probs (Suc n) result g =
     (case weighted_choice probs g of
        (Inl e, g') \<Rightarrow> (Inl e, g')
      | (Inr x, g') \<Rightarrow> unigram_loop probs n (if truthy x then result @ [the x] else result) g')"

definition joined :: "(error + string list) \<times> rng \<Rightarrow> (error + string) \<times> rng" where
  "joined r = (case r of (Inl e, g) \<Rightarrow> (Inl e, g) | (Inr result, g) \<Rightarrow> (Inr (concat result), g))"

definition generate_char_1 :: "session \<Rightarrow> int \<Rightarrow> rng \<Rightarrow> (error + string) \<times> rng" where
  "generate_char_1 s len g = joined (unigram_loop (char_unigram_probs s) (nat len) [] g)"

text \<open>
  The \<^verbatim>\<open>while\<close> loop of \<^verbatim>\<open>generate_char_2\<close> and of \<^verbatim>\<open>generate_word_2\<close> (the two
  are the same text over the character tables and over the word tables): draw from the
  bigram chain of the current token, fall back to the unigrams, append and go on, or stop
  at a draw that is not truthy.
\<close>

function order2_loop ::
  "dist \<Rightarrow> chains \<Rightarrow> int \<Rightarrow> string list \<Rightarrow> string option \<Rightarrow> rng \<Rightarrow> (error + string list) \<times> rng" where
  "order2_loop uni bi target result current g =
     (if int (length result) < target then
        (case or_else (weighted_choice (chain_get bi (map_option Uni current)) g) uni of
           (Inl e, g') \<Rightarrow> (Inl e, g')
         | (Inr nxt, g') \<Rightarrow>
             if truthy nxt then order2_loop uni bi target (result @ [the nxt]) nxt g'
             else (Inr result, g'))
      else (Inr result, g))"
  by pat_completeness auto
termination
  by (relation "measure (\<lambda>(uni, bi, target, result, current, g). nat (target - int (length result)))") auto

declare order2_loop.simps [simp del]

definition char_2_tokens :: "session \<Rightarrow> int \<Rightarrow> rng \<Rightarrow> (error + string list) \<times> rng" where
  "char_2_tokens s len g =
     (case weighted_choice (char_unigram_probs s) g of
        (Inl e, g1) \<Rightarrow> (Inl e, g1)
      | (Inr current, g1) \<Rightarrow>
          (case order2_loop (char_unigram_probs s) (char_bigram_chains s) len
                  (if truthy current then [the current] else []) current g1 of
             (Inl e, g2) \<Rightarrow> (Inl e, g2)
           | (Inr result, g2) \<Rightarrow> (Inr (slice_to len result), g2)))"

definition generate_char_2 :: "session \<Rightarrow> int \<Rightarrow> rng \<Rightarrow> (error + string) \<times> rng" where
  "generate_char_2 s len g =
     (if char_bigram_chains s = [] then generate_char_1 s len g
      else joined (char_2_tokens s len g))"

text \<open>
  The \<^verbatim>\<open>while\<close> loop of \<^verbatim>\<open>generate_char_3\<close> and of \<^verbatim>\<open>generate_word_3\<close>: the
  context is \<^verbatim>\<open>(result[-2], result[-1])\<close>, which raises \<^verbatim>\<open>IndexError\<close> when fewer
  than two tokens have been produced; then the trigram chain, the bigram chain of the last
  token, and the unigrams are tried in turn.
\<close>

function order3_loop ::
  "dist \<Rightarrow> chains \<Rightarrow> chains \<Rightarrow> int \<Rightarrow> string list \<Rightarrow> rng \<Rightarrow> (error + string list) \<times> rng" where
  "order3_loop uni bi tri target result g =
     (if int (length result) < target then
        (case neg_index result 2 of
           Inl e \<Rightarrow> (Inl e, g)
         | Inr a \<Rightarrow>
             (case neg_index result 1 of
                Inl e \<Rightarrow> (Inl e, g)
              | Inr b \<Rightarrow>
                  (case or_else (or_else (weighted_choice (chain_get tri (Some (Duo a b))) g)
                                   (chain_get bi (Some (Uni b)))) uni of
                     (Inl e, g') \<Rightarrow> (Inl e, g')
                   | (Inr nxt, g') \<Rightarrow>
                       if truthy nxt then order3_loop uni bi tri target (result @ [the nxt]) g'
                       else (Inr result, g'))))
      else (Inr result, g))"
  by pat_completeness auto
termination
  by (relation "measure (\<lambda>(uni, bi, tri, target, result, g). nat (target - int (length result)))") auto

declare order3_loop.simps [simp del]

text \<open>The two seeds \<^verbatim>\<open>if x1: result.append(x1); if x2: result.append(x2)\<close>.\<close>

definition seeds :: "string option \<Rightarrow> string option \<Rightarrow> string list" where
  "seeds x1 x2 = (if truthy x1 then [the x1] else []) @ (if truthy x2 then [the x2] else [])"

definition char_3_tokens :: "session \<Rightarrow> int \<Rightarrow> rng \<Rightarrow> (error + string list) \<times> rng" where
  "char_3_tokens s len g =
     (case weighted_choice (char_unigram_probs s) g of
        (Inl e, g1) \<Rightarrow> (Inl e, g1)
      | (Inr char1, g1) \<Rightarrow>
          (case weighted_choice (char_unigram_probs s) g1 of
             (Inl e, g2) \<Rightarrow> (Inl e, g2)
           | (Inr char2, g2) \<Rightarrow>
               (case order3_loop (char_unigram_probs s) (char_bigram_chains s)
                       (char_trigram_chains s) len (seeds char1 char2) g2 of
                  (Inl e, g3) \<Rightarrow> (Inl e, g3)
                | (Inr result, g3) \<Rightarrow> (Inr (slice_to len result), g3))))"

definition generate_char_3 :: "session \<Rightarrow> int \<Rightarrow> rng \<Rightarrow> (error + string) \<times> rng" where
  "generate_char_3 s len g =
     (if char_trigram_chains s = [] then generate_char_2 s len g
      else joined (char_3_tokens s len g))"

section \<open>Anchor-word integration\<close>

text \<open>
  The two \<^verbatim>\<open>for\<close> loops of \<^verbatim>\<open>_generate_around_anchor\<close>: with at least two words
  the next word is drawn from \<^verbatim>\<open>word_bigram_chains\<close> at the tuple of the last two
  words, otherwise from the word unigrams; a truthy draw is appended.
\<close>

fun anchor_walk :: "session \<Rightarrow> nat \<Rightarrow> string list \<Rightarrow> rng \<Rightarrow> (error + string list) \<times> rng" where
  "anchor_walk s 0 ws g = (Inr ws, g)"
| "anchor_walk s (Suc n) ws g =
     (case (if 2 \<le> length ws
            then weighted_choice
                   (chain_get (word_bigram_chains s)
                      (Some (Duo (ws ! (length ws - 2)) (ws ! (length ws - 1))))) g
            else weighted_choice (word_unigram_probs s) g) of
        (Inl e, g') \<Rightarrow> (Inl e, g')
      | (Inr w, g') \<Rightarrow> anchor_walk s n (if truthy w then ws @ [the w] else ws) g')"

definition generate_around_anchor ::
  "session \<Rightarrow> string \<Rightarrow> int \<Rightarrow> rng \<Rightarrow> (error + string option) \<times> rng" where
  "generate_around_anchor s anchor_word num_words g =
     (case randint 2 5 g of
        (Inl e, g1) \<Rightarrow> (Inl e, g1)
      | (Inr before_count, g1) \<Rightarrow>
          (case anchor_walk s (nat before_count) [anchor_word] g1 of
             (Inl e, g2) \<Rightarrow> (Inl e, g2)
           | (Inr prev_words, g2) \<Rightarrow>
               (case anchor_walk s (nat (num_words - before_count)) [anchor_word] g2 of
                  (Inl e, g3) \<Rightarrow> (Inl e, g3)
                | (Inr next_words, g3) \<Rightarrow>
                    (let all_words = rev prev_words @ drop 1 next_words in
                     if all_words \<noteq> [] then
                       (case format_sentence (join '' '' all_words) of
                          Inl e \<Rightarrow> (Inl e, g3)
                        | Inr sentence \<Rightarrow> (Inr (Some sentence), g3))
                     else (Inr None, g3)))))"

text \<open>
  The loop \<^verbatim>\<open>for attempt in range(10)\<close> of \<^verbatim>\<open>_integrate_anchor_words\<close>, counted by
  the attempts that are left: an anchor outside \<^verbatim>\<open>word_unigrams\<close> lets the attempt
  pass; otherwise a candidate is generated and, when it is truthy and contains the anchor
  (case-insensitively), it replaces the sentence at an index drawn by
  \<^verbatim>\<open>random.randint(0, len(sentences) - 1)\<close> and the loop is left.
\<close>

fun anchor_attempts ::
  "session \<Rightarrow> string \<Rightarrow> nat \<Rightarrow> string list \<Rightarrow> rng \<Rightarrow> (error + string list) \<times> rng" where
  "anchor_attempts s anchor 0 sentences g = (Inr sentences, g)"
| "anchor_attempts s anchor (Suc k) sentences g =
     (if anchor \<in> set (map fst (word_unigrams s)) then
        (case sample_sentence_length s g of
           (Inl e, g1) \<Rightarrow> (Inl e, g1)
         | (Inr num_words, g1) \<Rightarrow>
             (case generate_around_anchor s anchor num_words g1 of
                (Inl e, g2) \<Rightarrow> (Inl e, g2)
              | (Inr candidate, g2) \<Rightarrow>
                  if truthy candidate \<and> sublist (lower anchor) (lower (the candidate)) then
                    (case randint 0 (int (length sentences) - 1) g2 of
                       (Inl e, g3) \<Rightarrow> (Inl e, g3)
                     | (Inr idx, g3) \<Rightarrow> (Inr (sentences[nat idx := the candidate]), g3))
                  else anchor_attempts s anchor k sentences g2))
      else anchor_attempts s anchor k sentences g)"

text \<open>The loop \<^verbatim>\<open>for anchor in missing_anchors\<close>.\<close>

fun anchors_loop ::
  "session \<Rightarrow> string list \<Rightarrow> string list \<Rightarrow> rng \<Rightarrow> (error + string list) \<times> rng" where
  "anchors_loop s [] sentences g = (Inr sentences, g)"
| "anchors_loop s (anchor # rest) sentences g =
     (case anchor_attempts s anchor 10 sentences g of
        (Inl e, g') \<Rightarrow> (Inl e, g')
      | (Inr sentences', g') \<Rightarrow> anchors_loop s rest sentences' g')"

definition integrate_anchor_words ::
  "session \<Rightarrow> string \<Rightarrow> string list \<Rightarrow> int \<Rightarrow> rng \<Rightarrow> (error + string) \<times> rng" where
  "integrate_anchor_words s text anchor_words num_sentences g =
     (if anchor_words = [] then (Inr text, g)
      else
        let text_lower = lower text;
            missing_anchors = filter (\<lambda>w. \<not> sublist (lower w) text_lower) anchor_words
        in
        if missing_anchors = [] then (Inr text, g)
        else
          (case str_split ''. '' text of
             Inl e \<Rightarrow> (Inl e, g)
           | Inr sentences \<Rightarrow>
               (case anchors_loop s missing_anchors sentences g of
                  (Inl e, g') \<Rightarrow> (Inl e, g')
                | (Inr sentences', g') \<Rightarrow> (Inr (join ''. '' sentences'), g'))))"

section \<open>Word-level generation\<close>

text \<open>
  The end of every sentence: \<^verbatim>\<open>if words:\<close> the words are joined by one space, the
  first character is upper-cased, a period is appended and the sentence is appended to
  the sentences.
\<close>

definition finish_sentence :: "string list \<Rightarrow> string list \<Rightarrow> error + string list" where
  "finish_sentence sentences ws =
     (if ws \<noteq> [] then
        (case format_sentence (join '' '' ws) of
           Inl e \<Rightarrow> Inl e
         | Inr sentence \<Rightarrow> Inr (sentences @ [sentence]))
      else Inr sentences)"

text \<open>
  The end of every word-level procedure: the sentences are joined by one space and,
  \<^verbatim>\<open>if anchor_words:\<close> (neither \<^verbatim>\<open>None\<close> nor the empty list), the anchors are
  integrated.
\<close>

definition finish_text ::
  "session \<Rightarrow> (error + string list) \<times> rng \<Rightarrow> string list option \<Rightarrow> int \<Rightarrow> (error + string) \<times> rng" where
  "finish_text s r anchor_words num_sentences =
     (case r of
        (Inl e, g) \<Rightarrow> (Inl e, g)
      | (Inr sentences, g) \<Rightarrow>
          (let result = join '' '' sentences in
           case anchor_words of
             None \<Rightarrow> (Inr result, g)
           | Some aw \<Rightarrow>
               if aw \<noteq> [] then integrate_anchor_words s result aw num_sentences g
               else (Inr result, g)))"

function word_1_loop ::
  "session \<Rightarrow> int \<Rightarrow> string list \<Rightarrow> nat \<Rightarrow> rng \<Rightarrow> (error + string list) \<times> rng" where
  "word_1_loop s num_sentences sentences attempts g =
     (if int (length sentences) < num_sentences \<and> attempts < 100 then
        (case sample_sentence_length s g of
           (Inl e, g1) \<Rightarrow> (Inl e, g1)
         | (Inr sentence_length, g1) \<Rightarrow>
             (case unigram_loop (word_unigram_probs s) (nat sentence_length) [] g1 of
                (Inl e, g2) \<Rightarrow> (Inl e, g2)
              | (Inr ws, g2) \<Rightarrow>
                  (case finish_sentence sentences ws of
                     Inl e \<Rightarrow> (Inl e, g2)
                   | Inr sentences' \<Rightarrow> word_1_loop s num_sentences sentences' (attempts + 1) g2)))
      else (Inr sentences, g))"
  by pat_completeness auto
termination
  by (relation "measure (\<lambda>(s, num_sentences, sentences, attempts, g). 100 - attempts)") auto

declare word_1_loop.simps [simp del]

definition generate_word_1 ::
  "session \<Rightarrow> int \<Rightarrow> string list option \<Rightarrow> rng \<Rightarrow> (error + string) \<times> rng" where
  "generate_word_1 s num_sentences anchor_words g =
     finish_text s (word_1_loop s num_sentences [] 0 g) anchor_words num_sentences"

text \<open>The loop \<^verbatim>\<open>for _ in range(num_sentences)\<close> of \<^verbatim>\<open>generate_word_2\<close>.\<close>

fun word_2_loop ::
  "session \<Rightarrow> nat \<Rightarrow> string list \<Rightarrow> rng \<Rightarrow> (error + string list) \<times> rng" where
  "word_2_loop s 0 sentences g = (Inr sentences, g)"
| "word_2_loop s (Suc n) sentences g =
     (case sample_sentence_length s g of
        (Inl e, g1) \<Rightarrow> (Inl e, g1)
      | (Inr sentence_length, g1) \<Rightarrow>
          (case weighted_choice (word_unigram_probs s) g1 of
             (Inl e, g2) \<Rightarrow> (Inl e, g2)
           | (Inr current_word, g2) \<Rightarrow>
               (case order2_loop (word_unigram_probs s) (word_bigram_chains s) sentence_length
                       (if truthy current_word then [the current_word] else []) current_word g2 of
                  (Inl e, g3) \<Rightarrow> (Inl e, g3)
                | (Inr ws, g3) \<Rightarrow>
                    (case finish_sentence sentences ws of
                       Inl e \<Rightarrow> (Inl e, g3)
                     | Inr sentences' \<Rightarrow> word_2_loop s n sentences' g3))))"

definition generate_word_2 ::
  "session \<Rightarrow> int \<Rightarrow> string list option \<Rightarrow> rng \<Rightarrow> (error + string) \<times> rng" where
  "generate_word_2 s num_sentences anchor_words g =
     (if word_bigram_chains s = [] then generate_word_1 s num_sentences anchor_words g
      else finish_text s (word_2_loop s (nat num_sentences) [] g) anchor_words num_sentences)"

text \<open>The loop \<^verbatim>\<open>for _ in range(num_sentences)\<close> of \<^verbatim>\<open>generate_word_3\<close>.\<close>

fun word_3_loop ::
  "session \<Rightarrow> nat \<Rightarrow> string list \<Rightarrow> rng \<Rightarrow> (error + string list) \<times> rng" where
  "word_3_loop s 0 sentences g = (Inr sentences, g)"
| "word_3_loop s (Suc n) sentences g =
     (case sample_sentence_length s g of
        (Inl e, g1) \<Rightarrow> (Inl e, g1)
      | (Inr sentence_length, g1) \<Rightarrow>
          (case weighted_choice (word_unigram_probs s) g1 of
             (Inl e, g2) \<Rightarrow> (Inl e, g2)
           | (Inr word1, g2) \<Rightarrow>
               (case weighted_choice (word_unigram_probs s) g2 of
                  (Inl e, g3) \<Rightarrow> (Inl e, g3)
                | (Inr word2, g3) \<Rightarrow>
                    (case order3_loop (word_unigram_probs s) (word_bigram_chains s)
                            (word_trigram_chains s) sentence_length (seeds word1 word2) g3 of
                       (Inl e, g4) \<Rightarrow> (Inl e, g4)
                     | (Inr ws, g4) \<Rightarrow>
                         (case finish_sentence sentences ws of
                            Inl e \<Rightarrow> (Inl e, g4)
                          | Inr sentences' \<Rightarrow> word_3_loop s n sentences' g4)))))"

definition generate_word_3 ::
  "session \<Rightarrow> int \<Rightarrow> string list option \<Rightarrow> rng \<Rightarrow> (error + string) \<times> rng" where
  "generate_word_3 s num_sentences anchor_words g =
     (if word_trigram_chains s = [] then generate_word_2 s num_sentences anchor_words g
      else finish_text s (word_3_loop s (nat num_sentences) [] g) anchor_words num_sentences)"

section \<open>The generation interface\<close>

text \<open>
  \<^verbatim>\<open>generate\<close>: the dictionary from level names to the seven procedures, the
  \<^verbatim>\<open>ValueError\<close> for a level that is not a key of it, and the call of the entry. No
  procedure assigns to a field of the session, so the session is an argument and the
  random source is the only state that is returned.
\<close>

definition level_map ::
  "session \<Rightarrow> int \<Rightarrow> int \<Rightarrow> string list option \<Rightarrow> (string \<times> (rng \<Rightarrow> (error + string) \<times> rng)) list" where
  "level_map s len num_sentences anchor_words =
     [(''char-0'', generate_char_0 len),
      (''char-1'', generate_char_1 s len),
      (''char-2'', generate_char_2 s len),
      (''char-3'', generate_char_3 s len),
      (''word-1'', generate_word_1 s num_sentences anchor_words),
      (''word-2'', generate_word_2 s num_sentences anchor_words),
      (''word-3'', generate_word_3 s num_sentences anchor_words)]"

definition generate ::
  "session \<Rightarrow> string \<Rightarrow> int \<Rightarrow> int \<Rightarrow> string list option \<Rightarrow> rng \<Rightarrow> (error + string) \<times> rng" where
  "generate s level len num_sentences anchor_words g =
     (case map_of (level_map s len num_sentences anchor_words) level of
        None \<Rightarrow>
          (Inl (ValueError (''Invalid level: '' @ level @ ''. Must be 'char-0' through 'word-3'' @ [CHR 0x27])), g)
      | Some run \<Rightarrow> run g)"

section \<open>Building the models\<close>

text \<open>
  \<^verbatim>\<open>chains[prefix][next_item] += count\<close> on the nested \<^verbatim>\<open>defaultdict\<close>: a missing
  prefix gets an empty inner dictionary, a missing item starts at \<open>0.0\<close>.
\<close>

definition add_count :: "chains \<Rightarrow> ctx \<Rightarrow> string \<Rightarrow> int \<Rightarrow> chains" where
  "add_count ch pfx next_item count =
     (let inner = (case map_of ch pfx of None \<Rightarrow> [] | Some d \<Rightarrow> d);
          old = (case map_of inner next_item of None \<Rightarrow> 0 | Some v \<Rightarrow> v)
      in AList.update pfx (AList.update next_item (old + of_int count) inner) ch)"

fun count_chains :: "freq_table \<Rightarrow> chains \<Rightarrow> error + chains" where
  "count_chains [] ch = Inr ch"
| "count_chains ((ngram_str, count) # rest) ch =
     (case str_split ''||'' ngram_str of
        Inl e \<Rightarrow> Inl e
      | Inr parts \<Rightarrow>
          if length parts = 2 then
            count_chains rest (add_count ch (Uni (parts ! 0)) (parts ! 1) count)
          else if length parts = 3 then
            count_chains rest (add_count ch (Duo (parts ! 0) (parts ! 1)) (parts ! 2) count)
          else count_chains rest ch)"

text \<open>
  The normalisation: per prefix the total of the inner values is taken once, and every
  inner value is divided by it; dividing by a total of 0 is a \<^verbatim>\<open>ZeroDivisionError\<close>.
\<close>

fun normalize_chains :: "chains \<Rightarrow> error + chains" where
  "normalize_chains [] = Inr []"
| "normalize_chains ((pfx, inner) # rest) =
     (let total = sum_list (map snd inner) in
      if inner \<noteq> [] \<and> total = 0 then Inl ZeroDivisionError
      else case normalize_chains rest of
             Inl e \<Rightarrow> Inl e
           | Inr rest' \<Rightarrow> Inr ((pfx, map (\<lambda>(next_item, v). (next_item, v / total)) inner) # rest'))"

definition build_markov_chains :: "freq_table \<Rightarrow> error + chains" where
  "build_markov_chains ngrams =
     (case count_chains ngrams [] of
        Inl e \<Rightarrow> Inl e
      | Inr ch \<Rightarrow> normalize_chains ch)"

section \<open>Counts of a table of two-part keys\<close>

text \<open>
  The quantities the specification names for a table of two-part keys: the summed count
  of the entries whose key splits into the context \<open>a\<close> and the continuation \<open>b\<close>, and
  the summed count of the entries whose key has the context \<open>a\<close>.
\<close>

definition pair_count :: "freq_table \<Rightarrow> string \<Rightarrow> string \<Rightarrow> int" where
  "pair_count tbl a b =
     sum_list (map snd (filter (\<lambda>kc. split_from ''||'' [] (fst kc) = [a, b]) tbl))"

definition context_total :: "freq_table \<Rightarrow> string \<Rightarrow> int" where
  "context_total tbl a =
     sum_list (map snd (filter (\<lambda>kc. length (split_from ''||'' [] (fst kc)) = 2 \<and>
                                        hd (split_from ''||'' [] (fst kc)) = a) tbl))"

text \<open>The value and the total that a chain holds for a context, 0 where it holds none.\<close>

definition chain_count :: "chains \<Rightarrow> ctx \<Rightarrow> string \<Rightarrow> rat" where
  "chain_count ch c b =
     (case map_of ch c of
        None \<Rightarrow> 0
      | Some d \<Rightarrow> (case map_of d b of None \<Rightarrow> 0 | Some v \<Rightarrow> v))"

definition chain_total :: "chains \<Rightarrow> ctx \<Rightarrow> rat" where
  "chain_total ch c = (case map_of ch c of None \<Rightarrow> 0 | Some d \<Rightarrow> sum_list (map snd d))"

definition has_item :: "chains \<Rightarrow> ctx \<Rightarrow> string \<Rightarrow> bool" where
  "has_item ch c b = (case map_of ch c of None \<Rightarrow> False | Some d \<Rightarrow> map_of d b \<noteq> None)"

text \<open>A chain of counts in which every context is stored once and has a positive total.\<close>

definition counts_ok :: "chains \<Rightarrow> bool" where
  "counts_ok ch \<longleftrightarrow>
     distinct (map fst ch) \<and> (\<forall>p d. map_of ch p = Some d \<longrightarrow> 0 < sum_list (map snd d))"

section \<open>The order of the fallback\<close>


section \<open>Chains keyed by single tokens\<close>

text \<open>
  A chain all of whose contexts are single tokens, as \<^verbatim>\<open>_build_markov_chains\<close> makes
  it from a table of two-part keys.
\<close>

definition str_keyed :: "chains \<Rightarrow> bool" where
  "str_keyed ch = list_all (\<lambda>pd. case fst pd of Uni a \<Rightarrow> True | Duo a b \<Rightarrow> False) ch"

section \<open>A session loaded from word tables\<close>

text \<open>
  The word fields of a session as \<^verbatim>\<open>__init__\<close> loads and builds them from a unigram,
  a bigram and a trigram table over the words \<open>cat\<close>, \<open>the\<close>, \<open>sat\<close>, with sentences
  of 8 words.
\<close>

definition loaded_session :: session where
  "loaded_session =
     \<lparr> char_unigrams = [], char_bigrams = [], char_trigrams = [],
       word_unigrams = [(''cat'', 1), (''the'', 1), (''sat'', 1)],
       word_bigrams = [(''the||cat'', 1), (''cat||sat'', 1)],
       word_trigrams = [(''the||cat||sat'', 1)],
       length_distribution = Some [(''8'', 1)],
       char_unigram_probs = [], char_bigram_chains = [], char_trigram_chains = [],
       word_unigram_probs = [(''cat'', 1 / 3), (''the'', 1 / 3), (''sat'', 1 / 3)],
       word_bigram_chains = [(Uni ''the'', [(''cat'', 1)]), (Uni ''cat'', [(''sat'', 1)])],
       word_trigram_chains = [(Duo ''the'' ''cat'', [(''sat'', 1)])] \<rparr>"

section \<open>A small session\<close>

text \<open>
  A session over the characters \<open>a\<close>, \<open>b\<close> and the words \<open>the\<close>, \<open>cat\<close>, on which
  the procedures are run at concrete inputs below.
\<close>

definition demo_session :: session where
  "demo_session =
     \<lparr> char_unigrams = [(''a'', 1), (''b'', 1)],
       char_bigrams = [(''a||b'', 1), (''b||a'', 1)],
       char_trigrams = [(''a||b||a'', 1)],
       word_unigrams = [(''the'', 3), (''cat'', 1)],
       word_bigrams = [(''the||cat'', 1)],
       word_trigrams = [],
       length_distribution = Some [(''2'', 1)],
       char_unigram_probs = [(''a'', 1 / 2), (''b'', 1 / 2)],
       char_bigram_chains = [(Uni ''a'', [(''b'', 1)]), (Uni ''b'', [(''a'', 1)])],
       char_trigram_chains = [(Duo ''a'' ''b'', [(''a'', 1)])],
       word_unigram_probs = [(''the'', 3 / 4), (''cat'', 1 / 4)],
       word_bigram_chains = [(Uni ''the'', [(''cat'', 1)])],
       word_trigram_chains = [] \<rparr>"

section \<open>Properties\<close>

lemmas eval_defs = demo_session_def weighted_choice_def random_choices_def accumulate_def
  rng_random_def bisect.simps random_choice_def randbelow_def randint_def Let_def chain_get_def
  or_else_def truthy_def order2_loop.simps order3_loop.simps neg_index_def slice_to_def
  joined_def seeds_def

lemma freq_table_total_ge_length:
  "list_all (\<lambda>kc. 1 \<le> snd kc) tbl \<Longrightarrow> int (length tbl) \<le> sum_list (map snd tbl)"
  by (induction tbl) auto

lemma freq_table_total_pos:
  fixes tbl :: freq_table
  assumes "list_all (\<lambda>kc. 1 \<le> snd kc) tbl" and "tbl \<noteq> []"
  shows "0 < sum_list (map snd tbl)"
proof -
  from assms(2) have "0 < int (length tbl)" by simp
  with freq_table_total_ge_length [OF assms(1)] show ?thesis by linarith
qed

lemma sum_list_divided:
  fixes t :: int
  assumes "t \<noteq> 0"
  shows "sum_list (map (\<lambda>kc. (of_int (snd kc) :: rat) / of_int t) xs)
           = of_int (sum_list (map snd xs)) / of_int t"
  by (induction xs) (simp_all add: add_divide_distrib)

text \<open>
  C2. The frequency-to-probability conversion maps the empty frequency table to the empty
  distribution without error. For every non-empty frequency table (unique keys, counts at
  least 1) it returns, without error, the distribution that gives each key its count
  divided by the one total of all counts, in the table's order, and the values of that
  distribution sum to exactly 1 (in rational arithmetic).
\<close>

theorem frequencies_to_probabilities_normalized:
  "frequencies_to_probabilities [] = Inr [] \<and>
   (freq_table_ok tbl \<and> tbl \<noteq> [] \<longrightarrow>
      (\<exists>d. frequencies_to_probabilities tbl = Inr d \<and>
           d = map (\<lambda>(key, count). (key, of_int count / of_int (sum_list (map snd tbl)))) tbl \<and>
           map fst d = map fst tbl \<and>
           sum_list (map snd d) = 1))"
proof (intro conjI impI)
  show "frequencies_to_probabilities [] = Inr []"
    by (simp add: frequencies_to_probabilities_def)
next
  assume h: "freq_table_ok tbl \<and> tbl \<noteq> []"
  define t where "t = sum_list (map snd tbl)"
  from h have tpos: "0 < t"
    unfolding t_def by (simp add: freq_table_ok_def freq_table_total_pos)
  define d :: dist where "d = map (\<lambda>(key, count). (key, of_int count / of_int t)) tbl"
  have run: "frequencies_to_probabilities tbl = Inr d"
    using h tpos by (simp add: frequencies_to_probabilities_def d_def t_def Let_def)
  have keys: "map fst d = map fst tbl"
    by (simp add: d_def case_prod_beta comp_def)
  have "map snd d = map (\<lambda>kc. (of_int (snd kc) :: rat) / of_int t) tbl"
    by (simp add: d_def case_prod_beta comp_def)
  then have "sum_list (map snd d) = of_int (sum_list (map snd tbl)) / of_int t"
    using tpos sum_list_divided [of t tbl] by simp
  then have total: "sum_list (map snd d) = 1"
    using tpos by (simp add: t_def)
  show "\<exists>d. frequencies_to_probabilities tbl = Inr d \<and>
           d = map (\<lambda>(key, count). (key, of_int count / of_int (sum_list (map snd tbl)))) tbl \<and>
           map fst d = map fst tbl \<and>
           sum_list (map snd d) = 1"
    using run keys total by (auto simp: d_def t_def)
qed

theorem frequencies_to_probabilities_normalized_witness:
  "freq_table_ok [(''a'', 3), (''b'', 1)] \<and>
   frequencies_to_probabilities [(''a'', 3), (''b'', 1)] = Inr [(''a'', 3 / 4), (''b'', 1 / 4)] \<and>
   sum_list (map snd [(''a'', 3 / 4 :: rat), (''b'', 1 / 4)]) = 1"
proof -
  have ok: "freq_table_ok [(''a'', 3), (''b'', 1)]"
    by (simp add: freq_table_ok_def)
  from frequencies_to_probabilities_normalized [of "[(''a'', 3), (''b'', 1)]"] ok
  obtain d where "frequencies_to_probabilities [(''a'', 3), (''b'', 1)] = Inr d"
    and "d = map (\<lambda>(key, count). (key, of_int count / of_int (sum_list (map snd [(''a'', 3), (''b'', 1 :: int)]))))
               [(''a'', 3), (''b'', 1)]"
    and "sum_list (map snd d) = 1"
    by blast
  with ok show ?thesis by simp
qed

subsection \<open>Weighted sampling\<close>

lemma length_accumulate_from: "length (accumulate_from a ws) = length ws"
  by (induction ws arbitrary: a) simp_all

lemma last_accumulate_from: "ws \<noteq> [] \<Longrightarrow> last (accumulate_from a ws) = a + sum_list ws"
proof (induction ws arbitrary: a)
  case Nil
  then show ?case by simp
next
  case (Cons w ws)
  show ?case
  proof (cases "ws = []")
    case True
    then show ?thesis by simp
  next
    case False
    then have "accumulate_from (a + w) ws \<noteq> []"
      by (cases ws) simp_all
    with Cons.IH [OF False, of "a + w"] show ?thesis
      by (simp add: add.assoc)
  qed
qed

lemma bisect_bounds: "lo \<le> hi \<Longrightarrow> lo \<le> bisect a x lo hi \<and> bisect a x lo hi \<le> hi"
proof (induction a x lo hi rule: bisect.induct)
  case (1 a x lo hi)
  show ?case
  proof (cases "lo < hi")
    case False
    with "1.prems" show ?thesis by (simp add: bisect.simps)
  next
    case lt: True
    show ?thesis
    proof (cases "x < a ! ((lo + hi) div 2)")
      case True
      with lt "1.IH"(1) have "lo \<le> bisect a x lo ((lo + hi) div 2) \<and> bisect a x lo ((lo + hi) div 2) \<le> (lo + hi) div 2"
        by simp
      moreover have "bisect a x lo hi = bisect a x lo ((lo + hi) div 2)"
        using lt True by (subst bisect.simps) simp
      ultimately show ?thesis using lt by (simp, linarith)
    next
      case False
      with lt "1.IH"(2) have "(lo + hi) div 2 + 1 \<le> bisect a x ((lo + hi) div 2 + 1) hi \<and> bisect a x ((lo + hi) div 2 + 1) hi \<le> hi"
        by simp
      moreover have "bisect a x lo hi = bisect a x ((lo + hi) div 2 + 1) hi"
        using lt False by (subst bisect.simps) simp
      ultimately show ?thesis using lt by (simp, linarith)
    qed
  qed
qed

lemma random_choices_cases:
  assumes "population \<noteq> []" and "length weights = length population"
  shows "(sum_list weights \<le> 0 \<and> (\<exists>e. random_choices population weights g = (Inl e, g))) \<or>
         (0 < sum_list weights \<and> (\<exists>x g'. random_choices population weights g = (Inr x, g') \<and> x \<in> set population))"
proof -
  have len: "length (accumulate weights) = length population"
    using assms by (simp add: accumulate_def length_accumulate_from)
  from assms have wne: "weights \<noteq> []" by auto
  then have ne: "accumulate weights \<noteq> []"
    using len assms by auto
  have total: "last (accumulate weights) = sum_list weights"
    using wne by (simp add: accumulate_def last_accumulate_from)
  show ?thesis
  proof (cases "sum_list weights \<le> 0")
    case True
    then show ?thesis
      using len ne total by (simp add: random_choices_def Let_def)
  next
    case False
    obtain r g' where r: "rng_random g = (r, g')" by (cases "rng_random g")
    have "bisect (accumulate weights) (r * sum_list weights) 0 (length population - 1) \<le> length population - 1"
      using bisect_bounds [of 0 "length population - 1"] by simp
    then have "bisect (accumulate weights) (r * sum_list weights) 0 (length population - 1) < length population"
      using assms(1) by (cases population) simp_all
    then have "population ! bisect (accumulate weights) (r * sum_list weights) 0 (length population - 1) \<in> set population"
      by simp
    then show ?thesis
      using False len ne total r by (simp add: random_choices_def Let_def)
  qed
qed

lemma random_choice_nonempty:
  "seq \<noteq> [] \<Longrightarrow> random_choice seq g = (Inr (seq ! (g 0 mod length seq)), \<lambda>i. g (Suc i)) \<and> seq ! (g 0 mod length seq) \<in> set seq"
  by (simp add: random_choice_def randbelow_def)

lemma weighted_choice_empty: "weighted_choice [] g = (Inr None, g)"
  by (simp add: weighted_choice_def)

lemma weighted_choice_nonempty:
  assumes ne: "choices \<noteq> []"
  shows "\<exists>k g'. weighted_choice choices g = (Inr (Some k), g') \<and> k \<in> fst ` set choices"
proof -
  from ne have items: "map fst choices \<noteq> []" by simp
  have len: "length (map snd choices) = length (map fst choices)" by simp
  from random_choices_cases [OF items len, of g]
  show ?thesis
  proof
    assume "sum_list (map snd choices) \<le> 0 \<and>
            (\<exists>e. random_choices (map fst choices) (map snd choices) g = (Inl e, g))"
    then obtain e where "random_choices (map fst choices) (map snd choices) g = (Inl e, g)"
      by blast
    with ne random_choice_nonempty [OF items, of g] show ?thesis
      by (simp add: weighted_choice_def Let_def)
  next
    assume "0 < sum_list (map snd choices) \<and>
            (\<exists>x g'. random_choices (map fst choices) (map snd choices) g = (Inr x, g') \<and>
                     x \<in> set (map fst choices))"
    then obtain x g' where "random_choices (map fst choices) (map snd choices) g = (Inr x, g')"
      and "x \<in> set (map fst choices)" by blast
    with ne show ?thesis
      by (simp add: weighted_choice_def Let_def)
  qed
qed

lemma weighted_choice_degenerate:
  assumes ne: "choices \<noteq> []" and deg: "sum_list (map snd choices) \<le> 0"
  shows "weighted_choice choices g =
           (Inr (Some (map fst choices ! (g 0 mod length choices))), \<lambda>i. g (Suc i))"
proof -
  from ne have items: "map fst choices \<noteq> []" by simp
  have len: "length (map snd choices) = length (map fst choices)" by simp
  from random_choices_cases [OF items len, of g] deg
  obtain e where "random_choices (map fst choices) (map snd choices) g = (Inl e, g)" by auto
  with ne random_choice_nonempty [OF items, of g] show ?thesis
    by (simp add: weighted_choice_def Let_def)
qed

lemma weighted_choice_no_error: "\<exists>x g'. weighted_choice d g = (Inr x, g')"
proof (cases "d = []")
  case True
  then show ?thesis by (simp add: weighted_choice_empty)
next
  case False
  from weighted_choice_nonempty [OF this, of g] show ?thesis by blast
qed

text \<open>
  C9. Weighted sampling is total. On the empty mapping it returns none and leaves the
  random source untouched. On every non-empty mapping it returns, without raising, some
  key of the mapping, whatever the weights are. When the weights are degenerate (their
  total is not positive, as when all are zero) the weighted draw is refused by the library
  and the handler picks the key at an index drawn by \<^verbatim>\<open>random.choice\<close>, that is
  uniformly among the keys and independently of the weights.
\<close>

theorem weighted_choice_total:
  "weighted_choice [] g = (Inr None, g) \<and>
   (choices \<noteq> [] \<longrightarrow>
      (\<exists>k g'. weighted_choice choices g = (Inr (Some k), g') \<and> k \<in> fst ` set choices)) \<and>
   (choices \<noteq> [] \<and> sum_list (map snd choices) \<le> 0 \<longrightarrow>
      weighted_choice choices g =
        (Inr (Some (map fst choices ! (g 0 mod length choices))), \<lambda>i. g (Suc i)))"
  using weighted_choice_empty [of g] weighted_choice_nonempty [of choices g]
    weighted_choice_degenerate [of choices g]
  by blast

theorem weighted_choice_total_witness:
  "weighted_choice [(''a'', 0), (''b'', 0)] (\<lambda>i. 1) = (Inr (Some ''b''), \<lambda>i. 1) \<and>
   (\<exists>k g'. weighted_choice [(''a'', 1 / 4), (''b'', 3 / 4)] (\<lambda>i. 2 ^ 52) = (Inr (Some k), g') \<and>
       k \<in> fst ` set [(''a'', 1 / 4 :: rat), (''b'', 3 / 4)])"
  using weighted_choice_total [where choices = "[(''a'', 0), (''b'', 0)]" and g = "\<lambda>i. 1"]
    weighted_choice_total [where choices = "[(''a'', 1 / 4), (''b'', 3 / 4)]" and g = "\<lambda>i. 2 ^ 52"]
  by simp

subsection \<open>Delegation and dispatch\<close>

text \<open>
  C3. When the trigram transition model of a session is empty, the order-3 generator
  delegates the whole call to the order-2 generator: with the same arguments and the same
  state of the random source, \<^verbatim>\<open>generate_char_3\<close> returns what \<^verbatim>\<open>generate_char_2\<close>
  returns and \<^verbatim>\<open>generate_word_3\<close> what \<^verbatim>\<open>generate_word_2\<close> returns, result and
  random source alike.
\<close>

theorem order3_delegates_to_order2:
  "(char_trigram_chains s = [] \<longrightarrow> generate_char_3 s len g = generate_char_2 s len g) \<and>
   (word_trigram_chains s = [] \<longrightarrow>
      generate_word_3 s num_sentences anchor_words g = generate_word_2 s num_sentences anchor_words g)"
  by (simp add: generate_char_3_def generate_word_3_def)

theorem order3_delegates_to_order2_witness:
  "char_trigram_chains (demo_session\<lparr>char_trigram_chains := []\<rparr>) = [] \<and>
   word_trigram_chains (demo_session\<lparr>char_trigram_chains := []\<rparr>) = [] \<and>
   generate_char_3 (demo_session\<lparr>char_trigram_chains := []\<rparr>) 4 (\<lambda>i. 0) =
     generate_char_2 (demo_session\<lparr>char_trigram_chains := []\<rparr>) 4 (\<lambda>i. 0) \<and>
   generate_word_3 (demo_session\<lparr>char_trigram_chains := []\<rparr>) 2 None (\<lambda>i. 0) =
     generate_word_2 (demo_session\<lparr>char_trigram_chains := []\<rparr>) 2 None (\<lambda>i. 0) \<and>
   fst (generate_char_3 (demo_session\<lparr>char_trigram_chains := []\<rparr>) 4 (\<lambda>i. 0)) = Inr ''abab''"
proof -
  have e: "char_trigram_chains (demo_session\<lparr>char_trigram_chains := []\<rparr>) = []"
      "word_trigram_chains (demo_session\<lparr>char_trigram_chains := []\<rparr>) = []"
    by (simp_all add: demo_session_def)
  have v: "fst (generate_char_2 (demo_session\<lparr>char_trigram_chains := []\<rparr>) 4 (\<lambda>i. 0)) = Inr ''abab''"
    by (simp add: generate_char_2_def char_2_tokens_def eval_defs)
  from e v order3_delegates_to_order2 [of "demo_session\<lparr>char_trigram_chains := []\<rparr>" 4 "\<lambda>i. 0" 2 None]
  show ?thesis by simp
qed

text \<open>
  C7. A level outside the seven enumerated ones is rejected by \<^verbatim>\<open>generate\<close> with a
  \<^verbatim>\<open>ValueError\<close> whose message names the level, before anything is drawn: the random
  source comes back as it was, and the session, which no procedure writes, is an argument
  only. Each of the seven levels runs its generation procedure.
\<close>

theorem generate_dispatch:
  "(level \<notin> set [''char-0'', ''char-1'', ''char-2'', ''char-3'', ''word-1'', ''word-2'', ''word-3''] \<longrightarrow>
      generate s level len num_sentences anchor_words g =
        (Inl (ValueError (''Invalid level: '' @ level @ ''. Must be 'char-0' through 'word-3'' @ [CHR 0x27])), g)) \<and>
   generate s ''char-0'' len num_sentences anchor_words g = generate_char_0 len g \<and>
   generate s ''char-1'' len num_sentences anchor_words g = generate_char_1 s len g \<and>
   generate s ''char-2'' len num_sentences anchor_words g = generate_char_2 s len g \<and>
   generate s ''char-3'' len num_sentences anchor_words g = generate_char_3 s len g \<and>
   generate s ''word-1'' len num_sentences anchor_words g = generate_word_1 s num_sentences anchor_words g \<and>
   generate s ''word-2'' len num_sentences anchor_words g = generate_word_2 s num_sentences anchor_words g \<and>
   generate s ''word-3'' len num_sentences anchor_words g = generate_word_3 s num_sentences anchor_words g"
  by (simp add: generate_def level_map_def)

theorem generate_dispatch_witness:
  "''char-9'' \<notin> set [''char-0'', ''char-1'', ''char-2'', ''char-3'', ''word-1'', ''word-2'', ''word-3''] \<and>
   generate demo_session ''char-9'' 10 1 None (\<lambda>i. i) =
     (Inl (ValueError (''Invalid level: char-9. Must be 'char-0' through 'word-3'' @ [CHR 0x27])), \<lambda>i. i)"
  using generate_dispatch [of "''char-9''" demo_session 10 1 None "\<lambda>i. i"] by simp

subsection \<open>Requests of length zero\<close>

lemma or_else_no_error: "\<exists>x g'. r = (Inr x, g') \<Longrightarrow> \<exists>x g'. or_else r d = (Inr x, g')"
proof -
  assume "\<exists>x g'. r = (Inr x, g')"
  then obtain x g' where r: "r = (Inr x, g')" by blast
  show ?thesis
  proof (cases x)
    case None
    with r weighted_choice_no_error [of d g'] show ?thesis by (simp add: or_else_def)
  next
    case (Some c)
    with r show ?thesis by (simp add: or_else_def)
  qed
qed

lemma order2_loop_stop:
  "\<not> int (length result) < target \<Longrightarrow> order2_loop uni bi target result current g = (Inr result, g)"
  by (subst order2_loop.simps) simp

lemma order3_loop_stop:
  "\<not> int (length result) < target \<Longrightarrow> order3_loop uni bi tri target result g = (Inr result, g)"
  by (subst order3_loop.simps) simp

lemma order2_loop_no_error:
  "\<exists>r g'. order2_loop uni bi target result current g = (Inr r, g')"
proof (induction uni bi target result current g rule: order2_loop.induct)
  case (1 uni bi target result current g)
  show ?case
  proof (cases "int (length result) < target")
    case False
    then show ?thesis by (simp add: order2_loop_stop)
  next
    case True
    from or_else_no_error [OF weighted_choice_no_error, of "chain_get bi (map_option Uni current)" g uni]
    obtain nxt g' where d: "or_else (weighted_choice (chain_get bi (map_option Uni current)) g) uni = (Inr nxt, g')"
      by blast
    show ?thesis
    proof (cases "truthy nxt")
      case False
      with True d show ?thesis by (subst order2_loop.simps) simp
    next
      case t: True
      from "1.IH" [OF True d [symmetric] refl t]
      obtain r g'' where "order2_loop uni bi target (result @ [the nxt]) nxt g' = (Inr r, g'')" by blast
      with True d t show ?thesis by (subst order2_loop.simps) simp
    qed
  qed
qed

lemma length_slice_to: "0 \<le> n \<Longrightarrow> length (slice_to n xs) \<le> nat n"
  by (simp add: slice_to_def)

lemma slice_to_0: "slice_to 0 xs = []"
  by (simp add: slice_to_def)

lemma generate_char_2_zero: "\<exists>g'. generate_char_2 s 0 g = (Inr [], g')"
proof (cases "char_bigram_chains s = []")
  case True
  then show ?thesis by (simp add: generate_char_2_def generate_char_1_def joined_def)
next
  case False
  obtain current g1 where c: "weighted_choice (char_unigram_probs s) g = (Inr current, g1)"
    using weighted_choice_no_error by blast
  with False show ?thesis
    by (simp add: generate_char_2_def char_2_tokens_def order2_loop_stop slice_to_0 joined_def)
qed

lemma generate_char_3_zero: "\<exists>g'. generate_char_3 s 0 g = (Inr [], g')"
proof (cases "char_trigram_chains s = []")
  case True
  with generate_char_2_zero [of s g] show ?thesis by (simp add: generate_char_3_def)
next
  case False
  obtain char1 g1 where c1: "weighted_choice (char_unigram_probs s) g = (Inr char1, g1)"
    using weighted_choice_no_error by blast
  obtain char2 g2 where c2: "weighted_choice (char_unigram_probs s) g1 = (Inr char2, g2)"
    using weighted_choice_no_error by blast
  from False c1 c2 show ?thesis
    by (simp add: generate_char_3_def char_3_tokens_def order3_loop_stop slice_to_0 joined_def)
qed

lemma word_1_loop_zero: "word_1_loop s 0 [] 0 g = (Inr [], g)"
  by (subst word_1_loop.simps) simp

lemma generate_word_zero:
  "aw = None \<or> aw = Some [] \<Longrightarrow>
   generate_word_1 s 0 aw g = (Inr [], g) \<and> generate_word_2 s 0 aw g = (Inr [], g) \<and>
   generate_word_3 s 0 aw g = (Inr [], g)"
  by (auto simp add: generate_word_1_def generate_word_2_def generate_word_3_def word_1_loop_zero
      finish_text_def)

text \<open>
  C8. In every session and from every state of the random source, a character-level
  request of length 0 returns the empty string without error at each of the four
  character levels, and a word-level request of 0 sentences without anchor words
  (\<^verbatim>\<open>None\<close> or the empty list) returns the empty string without error at each of the
  three word levels.
\<close>

theorem zero_request_is_empty:
  "generate_char_0 0 g = (Inr [], g) \<and>
   generate_char_1 s 0 g = (Inr [], g) \<and>
   (\<exists>g'. generate_char_2 s 0 g = (Inr [], g')) \<and>
   (\<exists>g'. generate_char_3 s 0 g = (Inr [], g')) \<and>
   generate_word_1 s 0 None g = (Inr [], g) \<and> generate_word_1 s 0 (Some []) g = (Inr [], g) \<and>
   generate_word_2 s 0 None g = (Inr [], g) \<and> generate_word_2 s 0 (Some []) g = (Inr [], g) \<and>
   generate_word_3 s 0 None g = (Inr [], g) \<and> generate_word_3 s 0 (Some []) g = (Inr [], g)"
  using generate_char_2_zero [of s g] generate_char_3_zero [of s g]
    generate_word_zero [of None s g] generate_word_zero [of "Some []" s g]
  by (simp add: generate_char_0_def generate_char_1_def joined_def)

subsection \<open>The fallback chain of order 3\<close>











subsection \<open>The length of character-level outputs\<close>

lemma unigram_loop_bound:
  "\<exists>r g'. unigram_loop probs n result g = (Inr r, g') \<and> length r \<le> length result + n"
proof (induction n arbitrary: result g)
  case 0
  show ?case by simp
next
  case (Suc n)
  obtain x g1 where w: "weighted_choice probs g = (Inr x, g1)"
    using weighted_choice_no_error by blast
  from Suc [of "if truthy x then result @ [the x] else result" g1]
  obtain r g' where "unigram_loop probs n (if truthy x then result @ [the x] else result) g1 = (Inr r, g')"
    and "length r \<le> length (if truthy x then result @ [the x] else result) + n" by blast
  with w show ?case by (auto split: if_splits)
qed

lemma generate_char_2_bounded:
  assumes "0 \<le> len"
  shows "\<exists>toks g'. generate_char_2 s len g = (Inr (concat toks), g') \<and> length toks \<le> nat len"
proof (cases "char_bigram_chains s = []")
  case True
  from unigram_loop_bound [of "char_unigram_probs s" "nat len" "[]" g]
  obtain r g' where "unigram_loop (char_unigram_probs s) (nat len) [] g = (Inr r, g')"
    and "length r \<le> nat len" by auto
  with True show ?thesis by (auto simp add: generate_char_2_def generate_char_1_def joined_def)
next
  case False
  obtain current g1 where c: "weighted_choice (char_unigram_probs s) g = (Inr current, g1)"
    using weighted_choice_no_error by blast
  obtain r g2 where l: "order2_loop (char_unigram_probs s) (char_bigram_chains s) len
      (if truthy current then [the current] else []) current g1 = (Inr r, g2)"
    using order2_loop_no_error by blast
  from False c l length_slice_to [OF assms, of r] show ?thesis
    by (auto simp add: generate_char_2_def char_2_tokens_def joined_def)
qed

lemma char_3_tokens_bounded:
  assumes "char_3_tokens s len g = (Inr toks, g')" and "0 \<le> len"
  shows "length toks \<le> nat len"
  using assms length_slice_to [OF assms(2)]
  by (auto simp add: char_3_tokens_def split: prod.splits sum.splits)

text \<open>
  C10. The bound on the output length holds for \<^verbatim>\<open>generate_char_2\<close> in every session
  (\<open>generate_char_2_bounded\<close>) and for \<^verbatim>\<open>generate_char_3\<close> whenever it returns
  (\<open>char_3_tokens_bounded\<close>). But \<^verbatim>\<open>generate_char_3\<close> does not return in every
  session: with a trigram model and no character unigrams no seed is drawn, and for a
  requested length of 1 the loop reads \<^verbatim>\<open>result[-2]\<close> of the empty list, which is an
  \<^verbatim>\<open>IndexError\<close>, from every state of the random source.
\<close>

theorem generate_char_3_index_error:
  "\<forall>g. generate_char_3 (demo_session\<lparr>char_unigram_probs := []\<rparr>) 1 g = (Inl IndexError, g)"
  by (simp add: generate_char_3_def char_3_tokens_def eval_defs)

subsection \<open>Anchors outside the vocabulary\<close>

lemma split_from_not_Nil: "split_from sep cur str \<noteq> []"
  by (induction sep cur str rule: split_from.induct) auto

lemma join_Cons: "xs \<noteq> [] \<Longrightarrow> join sep (x # xs) = x @ sep @ join sep xs"
  by (cases xs) simp_all

lemma prefix_drop: "prefix sep str \<Longrightarrow> sep @ drop (length sep) str = str"
  by (auto simp add: prefix_def)

lemma join_split_from: "sep \<noteq> [] \<Longrightarrow> join sep (split_from sep cur str) = cur @ str"
proof (induction sep cur str rule: split_from.induct)
  case (1 sep cur)
  show ?case by simp
next
  case (2 sep cur c cs)
  show ?case
  proof (cases "prefix sep (c # cs)")
    case True
    with 2 have "join sep (split_from sep [] (drop (length sep) (c # cs))) = drop (length sep) (c # cs)"
      by simp
    with True "2.prems" prefix_drop [OF True] show ?thesis
      by (simp add: join_Cons split_from_not_Nil del: drop_Suc_Cons)
  next
    case False
    with 2 show ?thesis by simp
  qed
qed

lemma join_str_split: "str_split sep str = Inr parts \<Longrightarrow> join sep parts = str"
  using join_split_from [of sep "[]" str] by (auto simp add: str_split_def split: if_splits)

lemma anchor_attempts_skipped:
  "anchor \<notin> fst ` set (word_unigrams s) \<Longrightarrow> anchor_attempts s anchor k sentences g = (Inr sentences, g)"
  by (induction k) simp_all

lemma anchors_loop_skipped:
  "\<forall>w \<in> set anchors. w \<notin> fst ` set (word_unigrams s) \<Longrightarrow>
   anchors_loop s anchors sentences g = (Inr sentences, g)"
  by (induction anchors) (simp_all add: anchor_attempts_skipped)

text \<open>
  C6. For every text, every state of the random source and every list of requested anchor
  words none of which is a key of the word unigram table, anchor integration returns the
  text as it was, raises no error and draws nothing from the random source: the anchors
  that are not in the vocabulary are skipped silently.
\<close>

theorem anchors_outside_vocabulary_skipped:
  assumes "\<forall>w \<in> set anchor_words. w \<notin> fst ` set (word_unigrams s)"
  shows "integrate_anchor_words s text anchor_words num_sentences g = (Inr text, g)"
proof -
  have sub: "\<forall>w \<in> set (filter (\<lambda>w. \<not> sublist (lower w) (lower text)) anchor_words).
               w \<notin> fst ` set (word_unigrams s)"
    using assms by simp
  have sp: "str_split ''. '' text = Inr (split_from ''. '' [] text)"
    by (simp add: str_split_def)
  have "join ''. '' (split_from ''. '' [] text) = text"
    using join_str_split [OF sp] .
  with sp anchors_loop_skipped [OF sub] show ?thesis
    by (simp add: integrate_anchor_words_def Let_def)
qed

theorem anchors_outside_vocabulary_skipped_witness:
  "''zebra'' \<notin> fst ` set (word_unigrams demo_session) \<and>
   ''Dog'' \<notin> fst ` set (word_unigrams demo_session) \<and>
   integrate_anchor_words demo_session ''The cat. The cat.'' [''zebra'', ''Dog''] 2 (\<lambda>i. i) =
     (Inr ''The cat. The cat.'', \<lambda>i. i)"
proof -
  have h: "\<forall>w \<in> set [''zebra'', ''Dog'']. w \<notin> fst ` set (word_unigrams demo_session)"
    by (simp add: demo_session_def)
  from h anchors_outside_vocabulary_skipped [OF h, of "''The cat. The cat.''" 2 "\<lambda>i. i"]
  show ?thesis by simp
qed

subsection \<open>Building the chains\<close>

lemma sum_list_update:
  fixes al :: "('k \<times> rat) list"
  shows "sum_list (map snd (AList.update k v al)) =
           sum_list (map snd al) - (case map_of al k of None \<Rightarrow> 0 | Some x \<Rightarrow> x) + v"
  by (induction al) auto

lemma chain_count_add:
  "chain_count (add_count ch p n c) p' n' =
     chain_count ch p' n' + (if p' = p \<and> n' = n then of_int c else 0)"
  by (auto simp add: chain_count_def add_count_def Let_def AList.update_conv' split: option.splits)

lemma chain_total_add:
  "chain_total (add_count ch p n c) p' = chain_total ch p' + (if p' = p then of_int c else 0)"
  by (auto simp add: chain_total_def add_count_def Let_def AList.update_conv' sum_list_update
      split: option.splits)

lemma has_item_add:
  "has_item (add_count ch p n c) p' n' \<longleftrightarrow> (p' = p \<and> n' = n) \<or> has_item ch p' n'"
  by (auto simp add: has_item_def add_count_def Let_def AList.update_conv' split: option.splits)

lemma distinct_add_count:
  "distinct (map fst ch) \<Longrightarrow> distinct (map fst (add_count ch p n c))"
  by (simp add: add_count_def Let_def AList.distinct_update)

lemma counts_ok_add:
  assumes "counts_ok ch" and "1 \<le> c"
  shows "counts_ok (add_count ch p n c)"
proof -
  have pos: "0 < chain_total (add_count ch p n c) p'" if "map_of (add_count ch p n c) p' \<noteq> None" for p'
  proof (cases "p' = p")
    case True
    have "0 \<le> chain_total ch p"
    proof (cases "map_of ch p")
      case None
      then show ?thesis by (simp add: chain_total_def)
    next
      case (Some d)
      with assms(1) have "0 < sum_list (map snd d)" unfolding counts_ok_def by blast
      with Some show ?thesis by (simp add: chain_total_def)
    qed
    with True assms(2) show ?thesis by (simp add: chain_total_add)
  next
    case False
    with that have "map_of ch p' \<noteq> None"
      by (simp add: add_count_def Let_def AList.update_conv')
    then obtain d where d: "map_of ch p' = Some d" by blast
    with assms(1) have "0 < sum_list (map snd d)" unfolding counts_ok_def by blast
    with d have "0 < chain_total ch p'" by (simp add: chain_total_def)
    with False show ?thesis by (simp add: chain_total_add)
  qed
  have "0 < sum_list (map snd d)" if "map_of (add_count ch p n c) p' = Some d" for p' d
    using pos [of p'] that by (simp add: chain_total_def)
  with assms(1) show ?thesis
    by (simp add: counts_ok_def distinct_add_count)
qed

lemma pair_count_Cons:
  "pair_count ((k, c) # rest) a n =
     (if split_from ''||'' [] k = [a, n] then c else 0) + pair_count rest a n"
  by (simp add: pair_count_def)

lemma context_total_Cons:
  "context_total ((k, c) # rest) a =
     (if length (split_from ''||'' [] k) = 2 \<and> hd (split_from ''||'' [] k) = a then c else 0)
       + context_total rest a"
  by (simp add: context_total_def)

lemma count_chains_step:
  assumes "split_from ''||'' [] k = [a0, n0]"
  shows "count_chains ((k, c) # rest) ch = count_chains rest (add_count ch (Uni a0) n0 c)"
  using assms by (simp add: str_split_def)

lemma count_chains_two_part:
  assumes "list_all (\<lambda>kc. length (split_from ''||'' [] (fst kc)) = 2 \<and> 1 \<le> snd kc) tbl"
    and "counts_ok ch"
  shows "\<exists>ch'. count_chains tbl ch = Inr ch' \<and> counts_ok ch' \<and>
     (\<forall>a n. chain_count ch' (Uni a) n = chain_count ch (Uni a) n + of_int (pair_count tbl a n)) \<and>
     (\<forall>a. chain_total ch' (Uni a) = chain_total ch (Uni a) + of_int (context_total tbl a)) \<and>
     (\<forall>a n. has_item ch (Uni a) n \<or> (\<exists>kc \<in> set tbl. split_from ''||'' [] (fst kc) = [a, n])
             \<longrightarrow> has_item ch' (Uni a) n)"
  using assms
proof (induction tbl arbitrary: ch)
  case Nil
  then show ?case by (simp add: pair_count_def context_total_def)
next
  case (Cons kc rest)
  obtain k c where kc: "kc = (k, c)" by (cases kc)
  from Cons.prems(1) kc have len: "length (split_from ''||'' [] k) = 2" and c1: "1 \<le> c"
    and rest: "list_all (\<lambda>kc. length (split_from ''||'' [] (fst kc)) = 2 \<and> 1 \<le> snd kc) rest"
    by simp_all
  from len obtain a0 n0 where sp: "split_from ''||'' [] k = [a0, n0]"
    by (auto simp add: length_Suc_conv numeral_2_eq_2)
  define ch1 where "ch1 = add_count ch (Uni a0) n0 c"
  have ok1: "counts_ok ch1"
    unfolding ch1_def using Cons.prems(2) c1 by (rule counts_ok_add)
  from Cons.IH [OF rest ok1] obtain ch' where
    run: "count_chains rest ch1 = Inr ch'" and ok: "counts_ok ch'"
    and cnt: "\<forall>a n. chain_count ch' (Uni a) n = chain_count ch1 (Uni a) n + of_int (pair_count rest a n)"
    and tot: "\<forall>a. chain_total ch' (Uni a) = chain_total ch1 (Uni a) + of_int (context_total rest a)"
    and itm: "\<forall>a n. has_item ch1 (Uni a) n \<or> (\<exists>kc \<in> set rest. split_from ''||'' [] (fst kc) = [a, n])
                \<longrightarrow> has_item ch' (Uni a) n"
    by blast
  have r: "count_chains (kc # rest) ch = Inr ch'"
    using run count_chains_step [OF sp, of c rest ch] by (simp add: kc ch1_def)
  have c': "\<forall>a n. chain_count ch' (Uni a) n = chain_count ch (Uni a) n + of_int (pair_count (kc # rest) a n)"
    using cnt sp by (simp add: kc pair_count_Cons ch1_def chain_count_add)
  have t': "\<forall>a. chain_total ch' (Uni a) = chain_total ch (Uni a) + of_int (context_total (kc # rest) a)"
    using tot sp by (simp add: kc context_total_Cons ch1_def chain_total_add)
  have i': "\<forall>a n. has_item ch (Uni a) n \<or> (\<exists>kc' \<in> set (kc # rest). split_from ''||'' [] (fst kc') = [a, n])
                \<longrightarrow> has_item ch' (Uni a) n"
    using itm sp by (auto simp add: kc ch1_def has_item_add)
  from r ok c' t' i' show ?case by blast
qed

lemma sum_list_scaled:
  fixes d :: dist
  shows "sum_list (map snd (map (\<lambda>(n, v). (n, v / t)) d)) = sum_list (map snd d) / t"
  by (induction d) (auto simp add: add_divide_distrib)

lemma normalize_chains_ok:
  assumes "\<forall>pd \<in> set ch. sum_list (map snd (snd pd)) \<noteq> 0"
  shows "\<exists>ch'. normalize_chains ch = Inr ch' \<and>
           (\<forall>p. map_of ch' p =
                  map_option (\<lambda>d. map (\<lambda>(n, v). (n, v / sum_list (map snd d))) d) (map_of ch p))"
  using assms
proof (induction ch)
  case Nil
  show ?case by simp
next
  case (Cons pd rest)
  obtain p d where pd: "pd = (p, d)" by (cases pd)
  from Cons.prems pd have nz: "sum_list (map snd d) \<noteq> 0" by simp
  from Cons obtain rest' where r: "normalize_chains rest = Inr rest'"
    and m: "\<forall>p. map_of rest' p =
                  map_option (\<lambda>d. map (\<lambda>(n, v). (n, v / sum_list (map snd d))) d) (map_of rest p)"
    by auto
  from nz r m show ?case by (simp add: pd Let_def)
qed

lemma counts_ok_entries:
  assumes "counts_ok ch"
  shows "\<forall>pd \<in> set ch. sum_list (map snd (snd pd)) \<noteq> 0"
proof
  fix pd assume "pd \<in> set ch"
  then have "(fst pd, snd pd) \<in> set ch" by simp
  with assms have "map_of ch (fst pd) = Some (snd pd)" by (simp add: counts_ok_def)
  with assms have "0 < sum_list (map snd (snd pd))" unfolding counts_ok_def by blast
  then show "sum_list (map snd (snd pd)) \<noteq> 0" by simp
qed

lemma build_markov_chains_two_part:
  assumes two: "list_all (\<lambda>kc. length (split_from ''||'' [] (fst kc)) = 2 \<and> 1 \<le> snd kc) tbl"
    and mem: "(key, count) \<in> set tbl" and sp: "split_from ''||'' [] key = [a, b]"
  shows "\<exists>ch d. build_markov_chains tbl = Inr ch \<and> map_of ch (Uni a) = Some d \<and>
           map_of d b = Some (of_int (pair_count tbl a b) / of_int (context_total tbl a)) \<and>
           sum_list (map snd d) = 1"
proof -
  have ok0: "counts_ok []" by (simp add: counts_ok_def)
  from count_chains_two_part [OF two ok0] obtain ch1 where
    run: "count_chains tbl [] = Inr ch1" and ok: "counts_ok ch1"
    and cnt: "\<forall>a n. chain_count ch1 (Uni a) n = chain_count [] (Uni a) n + of_int (pair_count tbl a n)"
    and tot: "\<forall>a. chain_total ch1 (Uni a) = chain_total [] (Uni a) + of_int (context_total tbl a)"
    and itm: "\<forall>a n. has_item [] (Uni a) n \<or> (\<exists>kc \<in> set tbl. split_from ''||'' [] (fst kc) = [a, n])
                \<longrightarrow> has_item ch1 (Uni a) n"
    by blast
  from mem sp have "\<exists>kc \<in> set tbl. split_from ''||'' [] (fst kc) = [a, b]" by force
  with itm have "has_item ch1 (Uni a) b" by blast
  then obtain d1 v where d1: "map_of ch1 (Uni a) = Some d1" and v: "map_of d1 b = Some v"
    by (auto simp add: has_item_def split: option.splits)
  from cnt [rule_format, of a b] d1 v have vv: "v = of_int (pair_count tbl a b)"
    by (simp add: chain_count_def)
  from tot [rule_format, of a] d1 have tt: "sum_list (map snd d1) = of_int (context_total tbl a)"
    by (simp add: chain_total_def)
  from ok d1 have pos: "0 < sum_list (map snd d1)" unfolding counts_ok_def by blast
  from normalize_chains_ok [OF counts_ok_entries [OF ok]] obtain ch where
    n: "normalize_chains ch1 = Inr ch"
    and m: "\<forall>p. map_of ch p =
                  map_option (\<lambda>d. map (\<lambda>(n, v). (n, v / sum_list (map snd d))) d) (map_of ch1 p)"
    by blast
  define d where "d = map (\<lambda>(n, v). (n, v / sum_list (map snd d1))) d1"
  from m d1 have md: "map_of ch (Uni a) = Some d" by (simp add: d_def)
  have "map_of d b = Some (v / sum_list (map snd d1))"
    using v by (simp add: d_def map_of_map)
  with vv tt have mb: "map_of d b = Some (of_int (pair_count tbl a b) / of_int (context_total tbl a))"
    by simp
  have one: "sum_list (map snd d) = 1"
    using pos sum_list_scaled [of "sum_list (map snd d1)" d1] by (simp add: d_def)
  from run n md mb one show ?thesis
    by (auto simp add: build_markov_chains_def)
qed

text \<open>
  C1. From the table \<open>{"the||cat": 3, "the||dog": 1}\<close> the transition model is exactly
  the one context \<open>the\<close> with the distribution \<open>{cat: 3/4, dog: 1/4}\<close>. In general, for
  every table whose keys all split into two parts at \<open>||\<close> and whose counts are at least
  1, the builder returns without error, and for every key \<open>a||b\<close> of the table the
  context \<open>a\<close> is a key of the model, its distribution gives \<open>b\<close> the summed count of
  the pair \<open>(a, b)\<close> divided by the summed count of the context \<open>a\<close>, and the values of
  that distribution sum to 1: the normalisation is per context.
\<close>

theorem build_markov_chains_bigram:
  "build_markov_chains [(''the||cat'', 3), (''the||dog'', 1)] =
     Inr [(Uni ''the'', [(''cat'', 3 / 4), (''dog'', 1 / 4)])] \<and>
   (list_all (\<lambda>kc. length (split_from ''||'' [] (fst kc)) = 2 \<and> 1 \<le> snd kc) tbl \<and>
    (key, count) \<in> set tbl \<and> split_from ''||'' [] key = [a, b] \<longrightarrow>
      (\<exists>ch d. build_markov_chains tbl = Inr ch \<and> map_of ch (Uni a) = Some d \<and>
              map_of d b = Some (of_int (pair_count tbl a b) / of_int (context_total tbl a)) \<and>
              sum_list (map snd d) = 1))"
proof
  show "build_markov_chains [(''the||cat'', 3), (''the||dog'', 1)] =
          Inr [(Uni ''the'', [(''cat'', 3 / 4), (''dog'', 1 / 4)])]"
    by (simp add: build_markov_chains_def str_split_def add_count_def)
next
  show "list_all (\<lambda>kc. length (split_from ''||'' [] (fst kc)) = 2 \<and> 1 \<le> snd kc) tbl \<and>
    (key, count) \<in> set tbl \<and> split_from ''||'' [] key = [a, b] \<longrightarrow>
      (\<exists>ch d. build_markov_chains tbl = Inr ch \<and> map_of ch (Uni a) = Some d \<and>
              map_of d b = Some (of_int (pair_count tbl a b) / of_int (context_total tbl a)) \<and>
              sum_list (map snd d) = 1)"
    using build_markov_chains_two_part [of tbl key count a b] by blast
qed

theorem build_markov_chains_bigram_witness:
  "list_all (\<lambda>kc. length (split_from ''||'' [] (fst kc)) = 2 \<and> 1 \<le> snd kc)
     [(''the||cat'', 3 :: int), (''the||dog'', 1), (''a||cat'', 2)] \<and>
   (''the||dog'', 1 :: int) \<in> set [(''the||cat'', 3), (''the||dog'', 1), (''a||cat'', 2)] \<and>
   split_from ''||'' [] ''the||dog'' = [''the'', ''dog''] \<and>
   (\<exists>ch d. build_markov_chains [(''the||cat'', 3), (''the||dog'', 1), (''a||cat'', 2)] = Inr ch \<and>
      map_of ch (Uni ''the'') = Some d \<and> map_of d ''dog'' = Some (1 / 4) \<and>
      sum_list (map snd d) = 1)"
  using build_markov_chains_bigram
    [of "[(''the||cat'', 3), (''the||dog'', 1), (''a||cat'', 2)]" "''the||dog''" 1 "''the''" "''dog''"]
  by (simp add: pair_count_def context_total_def)

subsection \<open>Sentences around an anchor\<close>

lemma keys_add_count: "fst ` set (add_count ch p n c) = insert p (fst ` set ch)"
  by (simp add: add_count_def Let_def AList.dom_update)

lemma str_keyed_iff: "str_keyed ch \<longleftrightarrow> fst ` set ch \<subseteq> range Uni"
proof -
  have "(case p of Uni a \<Rightarrow> True | Duo a b \<Rightarrow> False) \<longleftrightarrow> p \<in> range Uni" for p
    by (cases p) auto
  then show ?thesis
    by (auto simp add: str_keyed_def list_all_iff)
qed

lemma count_chains_keys:
  assumes "list_all (\<lambda>kc. length (split_from ''||'' [] (fst kc)) = 2) tbl"
    and "count_chains tbl ch = Inr ch'" and "fst ` set ch \<subseteq> range Uni"
  shows "fst ` set ch' \<subseteq> range Uni"
  using assms
proof (induction tbl arbitrary: ch)
  case Nil
  then show ?case by simp
next
  case (Cons kc rest)
  obtain k c where kc: "kc = (k, c)" by (cases kc)
  from Cons.prems(1) kc have len: "length (split_from ''||'' [] k) = 2"
    and rest: "list_all (\<lambda>kc. length (split_from ''||'' [] (fst kc)) = 2) rest"
    by simp_all
  from len obtain a0 n0 where sp: "split_from ''||'' [] k = [a0, n0]"
    by (auto simp add: length_Suc_conv numeral_2_eq_2)
  from Cons.prems(2) have run: "count_chains rest (add_count ch (Uni a0) n0 c) = Inr ch'"
    using count_chains_step [OF sp, of c rest ch] by (simp add: kc)
  have "fst ` set (add_count ch (Uni a0) n0 c) \<subseteq> range Uni"
    using Cons.prems(3) by (simp add: keys_add_count)
  from Cons.IH [OF rest run this] show ?case .
qed

lemma normalize_chains_keys: "normalize_chains ch = Inr ch' \<Longrightarrow> map fst ch' = map fst ch"
proof (induction ch arbitrary: ch')
  case Nil
  then show ?case by simp
next
  case (Cons pd rest)
  obtain p d where pd: "pd = (p, d)" by (cases pd)
  from Cons.prems pd obtain rest' where "normalize_chains rest = Inr rest'"
    and "ch' = (p, map (\<lambda>(n, v). (n, v / sum_list (map snd d))) d) # rest'"
    by (auto simp add: Let_def split: if_splits sum.splits)
  with Cons.IH [of rest'] pd show ?case by simp
qed

lemma build_markov_chains_str_keyed:
  assumes "list_all (\<lambda>kc. length (split_from ''||'' [] (fst kc)) = 2) tbl"
    and "build_markov_chains tbl = Inr ch"
  shows "str_keyed ch"
proof -
  from assms(2) obtain ch1 where c: "count_chains tbl [] = Inr ch1" and n: "normalize_chains ch1 = Inr ch"
    by (auto simp add: build_markov_chains_def split: sum.splits)
  from count_chains_keys [OF assms(1) c] have "fst ` set ch1 \<subseteq> range Uni" by simp
  moreover from normalize_chains_keys [OF n] have "fst ` set ch = fst ` set ch1"
    by (metis set_map)
  ultimately show ?thesis by (simp add: str_keyed_iff)
qed

lemma str_keyed_no_tuple:
  assumes "str_keyed ch"
  shows "chain_get ch (Some (Duo a b)) = []"
proof -
  from assms have "Duo a b \<notin> fst ` set ch" by (auto simp add: str_keyed_iff)
  then have "map_of ch (Duo a b) = None" by (simp add: map_of_eq_None_iff)
  then show ?thesis by (simp add: chain_get_def)
qed

lemma anchor_walk_stalls:
  assumes "str_keyed (word_bigram_chains s)" and "2 \<le> length ws"
  shows "anchor_walk s n ws g = (Inr ws, g)"
proof (induction n)
  case 0
  show ?case by simp
next
  case (Suc n)
  with assms show ?case
    by (simp add: str_keyed_no_tuple weighted_choice_empty truthy_def)
qed

lemma anchor_walk_one_word:
  assumes "str_keyed (word_bigram_chains s)"
  shows "\<exists>added g'. anchor_walk s n [anchor] g = (Inr (anchor # added), g') \<and> length added \<le> 1"
proof (induction n arbitrary: g)
  case 0
  show ?case by simp
next
  case (Suc n)
  obtain w g1 where w: "weighted_choice (word_unigram_probs s) g = (Inr w, g1)"
    using weighted_choice_no_error by blast
  show ?case
  proof (cases "truthy w")
    case True
    have "anchor_walk s n [anchor, the w] g1 = (Inr [anchor, the w], g1)"
      using anchor_walk_stalls [OF assms, of "[anchor, the w]" n g1] by simp
    with w True show ?thesis by simp
  next
    case False
    with w Suc [of g1] show ?thesis by simp
  qed
qed

lemma anchor_walk_first_word:
  assumes "str_keyed (word_bigram_chains s)" and "0 < n"
    and "weighted_choice (word_unigram_probs s) g = (Inr (Some w), g1)" and "w \<noteq> []"
  shows "anchor_walk s n [anchor] g = (Inr [anchor, w], g1)"
proof -
  from assms(2) obtain m where n: "n = Suc m" by (cases n) auto
  have "anchor_walk s m [anchor, w] g1 = (Inr [anchor, w], g1)"
    using anchor_walk_stalls [OF assms(1), of "[anchor, w]" m g1] by simp
  with assms(3,4) show ?thesis by (simp add: n truthy_def)
qed

text \<open>
  C5. \<^verbatim>\<open>_generate_around_anchor\<close> looks the two-word context up in
  \<^verbatim>\<open>word_bigram_chains\<close>, whose contexts are single words, so the lookup finds nothing
  and no word is drawn once two words exist. In the session loaded from the tables
  \<open>{cat: 1, the: 1, sat: 1}\<close>, \<open>{the||cat: 1, cat||sat: 1}\<close> and
  \<open>{the||cat||sat: 1}\<close>, the trigram model continues the context \<open>(the, cat)\<close> with
  \<open>sat\<close>, yet every walk from the anchor \<open>the\<close> adds at most one word, from every state
  of the random source and for every number of steps; a walk of 7 steps ends at
  \<open>the cat\<close>, and the sentence of 8 requested words around the anchor is
  \<open>Cat the cat.\<close>
\<close>

theorem anchor_walk_ignores_two_word_context:
  "frequencies_to_probabilities (word_unigrams loaded_session) = Inr (word_unigram_probs loaded_session) \<and>
   build_markov_chains (word_bigrams loaded_session) = Inr (word_bigram_chains loaded_session) \<and>
   build_markov_chains (word_trigrams loaded_session) = Inr (word_trigram_chains loaded_session) \<and>
   chain_get (word_trigram_chains loaded_session) (Some (Duo ''the'' ''cat'')) = [(''sat'', 1)] \<and>
   chain_get (word_bigram_chains loaded_session) (Some (Duo ''the'' ''cat'')) = [] \<and>
   (\<forall>n g. \<exists>added g'. anchor_walk loaded_session n [''the''] g = (Inr (''the'' # added), g') \<and>
              length added \<le> 1) \<and>
   anchor_walk loaded_session 7 [''the''] (\<lambda>i. 0) = (Inr [''the'', ''cat''], \<lambda>i. 0) \<and>
   generate_around_anchor loaded_session ''the'' 8 (\<lambda>i. 0) = (Inr (Some ''Cat the cat.''), \<lambda>i. 0)"
proof -
  have uni: "frequencies_to_probabilities (word_unigrams loaded_session) =
               Inr (word_unigram_probs loaded_session)"
    by (simp add: loaded_session_def frequencies_to_probabilities_def)
  have bi: "build_markov_chains (word_bigrams loaded_session) = Inr (word_bigram_chains loaded_session)"
    by (simp add: loaded_session_def build_markov_chains_def str_split_def add_count_def)
  have tri: "build_markov_chains (word_trigrams loaded_session) = Inr (word_trigram_chains loaded_session)"
    by (simp add: loaded_session_def build_markov_chains_def str_split_def add_count_def)
  have two: "list_all (\<lambda>kc. length (split_from ''||'' [] (fst kc)) = 2) (word_bigrams loaded_session)"
    by (simp add: loaded_session_def)
  have keyed: "str_keyed (word_bigram_chains loaded_session)"
    using build_markov_chains_str_keyed [OF two bi] .
  have hit: "chain_get (word_trigram_chains loaded_session) (Some (Duo ''the'' ''cat'')) = [(''sat'', 1)]"
    by (simp add: loaded_session_def chain_get_def)
  have miss: "chain_get (word_bigram_chains loaded_session) (Some (Duo ''the'' ''cat'')) = []"
    using keyed by (rule str_keyed_no_tuple)
  have short: "\<forall>n g. \<exists>added g'. anchor_walk loaded_session n [''the''] g = (Inr (''the'' # added), g') \<and>
              length added \<le> 1"
    using anchor_walk_one_word [OF keyed] by blast
  have draw: "weighted_choice (word_unigram_probs loaded_session) (\<lambda>i. 0) = (Inr (Some ''cat''), \<lambda>i. 0)"
    by (simp add: loaded_session_def weighted_choice_def random_choices_def accumulate_def
        rng_random_def bisect.simps Let_def)
  have walk: "anchor_walk loaded_session n [''the''] (\<lambda>i. 0) = (Inr [''the'', ''cat''], \<lambda>i. 0)"
    if "0 < n" for n
    using anchor_walk_first_word [OF keyed that draw] by simp
  have seven: "anchor_walk loaded_session 7 [''the''] (\<lambda>i. 0) = (Inr [''the'', ''cat''], \<lambda>i. 0)"
    using walk [of 7] by simp
  have before: "randint 2 5 (\<lambda>i. 0) = (Inr 2, \<lambda>i. 0)"
    by (simp add: randint_def randbelow_def)
  have w1: "anchor_walk loaded_session (nat 2) [''the''] (\<lambda>i. 0) = (Inr [''the'', ''cat''], \<lambda>i. 0)"
    using walk [of "nat 2"] by simp
  have w2: "anchor_walk loaded_session (nat (8 - 2)) [''the''] (\<lambda>i. 0) = (Inr [''the'', ''cat''], \<lambda>i. 0)"
    using walk [of "nat (8 - 2)"] by simp
  have sentence: "generate_around_anchor loaded_session ''the'' 8 (\<lambda>i. 0) =
                    (Inr (Some ''Cat the cat.''), \<lambda>i. 0)"
    unfolding generate_around_anchor_def
    by (simp only: before w1 w2 prod.case sum.case)
       (simp add: format_sentence_def upper_char_def)
  from uni bi tri hit miss short seven sentence show ?thesis by blast
qed

end
